theory Spec2Isabelle
  imports Main "HOL-Library.Sublist" "HOL-Library.Word"
begin

section \<open>The module \<^verbatim>\<open>cr_cleaner.py\<close>: data\<close>

text \<open>
  The module reads and writes files in binary mode, so file contents are lists of bytes.
  Paths, file names and console input are Python strings, modelled as \<open>string\<close>.
\<close>

type_synonym byte = "8 word"

definition CR :: byte where "CR = 0x0D"
definition LF :: byte where "LF = 0x0A"

text \<open>The literals \<^verbatim>\<open>b'\r\n'\<close> and \<^verbatim>\<open>b'\n'\<close>.\<close>

definition CRLF :: "byte list" where "CRLF = [CR, LF]"
definition NL :: "byte list" where "NL = [LF]"

text \<open>The module constants.\<close>

definition TARGET_FILES :: "string list" where
  "TARGET_FILES = [''.py'']"

definition IGNORE_FOLDERS :: "string list" where
  "IGNORE_FOLDERS = [''site-packages'', ''node_modules'', ''.git'',
                     ''venv'', ''.env'', ''.vscode'', ''.idea'']"

text \<open>
  Exceptions the modelled code can meet. \<open>OSError\<close> stands for an input/output error
  while an open file is read.
\<close>

datatype exn = FileNotFoundError | PermissionError | OSError | UnboundLocalError | EOFError

text \<open>
  A file of the file system: its bytes, whether the process may open it for reading and
  for writing, and whether reading it fails although it could be opened.
\<close>

record disk_file =
  content :: "byte list"
  readable :: bool
  writable :: bool
  damaged :: bool

text \<open>An open binary file object: the bytes as this handle sees them and its position.\<close>

record fileobj =
  data :: "byte list"
  pos :: nat
  faulty :: bool

text \<open>
  What the program writes to standard output, one value for each \<^verbatim>\<open>print\<close> or prompt:
  the report of a line ending in CR+LF (file name, index, raw line), the report of a file
  that could not be read (file name, exception), and the confirmation prompt (formatted
  from a file object).
\<close>

datatype event =
  Win32Line string nat "byte list"
| CantRead string exn
| ClearPrompt fileobj

text \<open>
  A directory tree as \<^verbatim>\<open>os.walk\<close> meets it: a directory lists its sub-directories (name and
  tree, in the order the system reports them) and the names of its files; \<open>NoDir\<close> is a
  path that cannot be listed (it does not exist, is not a directory, may not be read, or
  is a symbolic link, which \<^verbatim>\<open>os.walk\<close> does not follow).
\<close>

datatype tree = Dir "(string \<times> tree) list" "string list" | NoDir

text \<open>
  The state of the process and its environment: file contents by path, the directory tree
  found at a path, the lines written to standard output so far, and the lines still to be
  read from standard input.
\<close>

record world =
  fs :: "string \<rightharpoonup> disk_file"
  dirs :: "string \<Rightarrow> tree"
  stdout :: "event list"
  stdin :: "string list"

text \<open>
  A Python function without a \<^verbatim>\<open>return\<close> on some path returns \<^verbatim>\<open>None\<close> there. Such results
  are of type \<open>bool option\<close>: \<open>Some b\<close> is the Boolean \<open>b\<close>, and \<open>None\<close> is Python's
  \<^verbatim>\<open>None\<close>. \<open>truthy\<close> is the test an \<^verbatim>\<open>if\<close> applies to such a value.
\<close>

fun truthy :: "bool option \<Rightarrow> bool" where
  "truthy None = False"
| "truthy (Some b) = b"

section \<open>Library calls\<close>

subsection \<open>Bytes\<close>

text \<open>
  \<^verbatim>\<open>f.readlines()\<close> on a binary stream: the bytes are cut after every line feed, the
  terminators are kept, and a last run without a line feed is a line of its own.
\<close>

fun readlines :: "byte list \<Rightarrow> byte list list" where
  "readlines [] = []"
| "readlines (b # bs) =
     (if b = LF then [b] # readlines bs
      else (case readlines bs of
              [] \<Rightarrow> [[b]]
            | l # ls \<Rightarrow> (b # l) # ls))"

text \<open>\<^verbatim>\<open>line.endswith(sfx)\<close>.\<close>

definition endswith :: "byte list \<Rightarrow> byte list \<Rightarrow> bool" where
  "endswith line sfx = suffix sfx line"

text \<open>
  \<^verbatim>\<open>s.replace(old, new)\<close> on bytes: every occurrence of \<open>old\<close>, found from left to right
  without overlap, is replaced by \<open>new\<close>; an empty \<open>old\<close> matches before every byte and at
  the end.
\<close>

fun bytes_replace :: "byte list \<Rightarrow> byte list \<Rightarrow> byte list \<Rightarrow> byte list" where
  "bytes_replace [] new s = new @ concat (map (\<lambda>b. b # new) s)"
| "bytes_replace (c # cs) new [] = []"
| "bytes_replace (c # cs) new (b # bs) =
     (if prefix (c # cs) (b # bs)
      then new @ bytes_replace (c # cs) new (drop (length cs) bs)
      else b # bytes_replace (c # cs) new bs)"

subsection \<open>Strings and paths (POSIX)\<close>

text \<open>\<^verbatim>\<open>sub in s\<close> on strings is the test for a contiguous sub-string, \<^const>\<open>sublist\<close>.\<close>

definition lower_char :: "char \<Rightarrow> char" where
  "lower_char c =
     (let n = (of_char c :: nat) in if 65 \<le> n \<and> n \<le> 90 then char_of (n + 32) else c)"

text \<open>\<^verbatim>\<open>s.lower()\<close>, on the characters of ASCII.\<close>

definition lower :: "string \<Rightarrow> string" where
  "lower s = map lower_char s"

text \<open>\<^verbatim>\<open>s.rfind(c)\<close> for one character: the index of its last occurrence, or \<open>-1\<close>.\<close>

definition rfind :: "string \<Rightarrow> char \<Rightarrow> int" where
  "rfind s c =
     (if c \<in> set s then int (length s) - 1 - int (length (takeWhile (\<lambda>x. x \<noteq> c) (rev s)))
      else - 1)"

text \<open>
  \<^verbatim>\<open>os.path.split(p)\<close>: the path is cut after its last slash; trailing slashes are
  stripped from the head unless it consists of slashes only.
\<close>

definition os_path_split :: "string \<Rightarrow> string \<times> string" where
  "os_path_split p =
     (let i = nat (rfind p (CHR ''/'') + 1);
          head = take i p;
          tail = drop i p
      in if head \<noteq> [] \<and> head \<noteq> replicate (length head) (CHR ''/'')
         then (rev (dropWhile (\<lambda>c. c = CHR ''/'') (rev head)), tail)
         else (head, tail))"

text \<open>
  \<^verbatim>\<open>os.path.splitext(p)\<close>: the extension starts at the last dot, when that dot stands
  after the last slash and some character between the two is not a dot; otherwise the
  extension is empty.
\<close>

definition os_path_splitext :: "string \<Rightarrow> string \<times> string" where
  "os_path_splitext p =
     (let sepIndex = rfind p (CHR ''/'');
          dotIndex = rfind p (CHR ''.'');
          between = take (nat (dotIndex - (sepIndex + 1))) (drop (nat (sepIndex + 1)) p)
      in if dotIndex > sepIndex \<and> list_ex (\<lambda>x. x \<noteq> CHR ''.'') between
         then (take (nat dotIndex) p, drop (nat dotIndex) p)
         else (p, []))"

text \<open>\<^verbatim>\<open>os.path.join(a, b)\<close> for two components.\<close>

definition os_path_join :: "string \<Rightarrow> string \<Rightarrow> string" where
  "os_path_join a b =
     (if b \<noteq> [] \<and> hd b = CHR ''/'' then b
      else if a = [] \<or> last a = CHR ''/'' then a @ b
      else a @ ''/'' @ b)"

text \<open>
  \<^verbatim>\<open>os.walk(top)\<close>, top-down, errors ignored, links not followed: the triple of a directory
  comes first, then the walks of its sub-directories in order, each under the joined path.
\<close>

fun os_walk :: "string \<Rightarrow> tree \<Rightarrow> (string \<times> string list \<times> string list) list" where
  "os_walk top_dir NoDir = []"
| "os_walk top_dir (Dir subs files) =
     (top_dir, map fst subs, files)
       # concat (map (\<lambda>nt. os_walk (os_path_join top_dir (fst nt)) (snd nt)) subs)"

subsection \<open>Files and the console\<close>

text \<open>\<^verbatim>\<open>open(file_name, 'rb')\<close> and \<^verbatim>\<open>open(file_name, 'r+b')\<close>: neither creates nor truncates.\<close>

definition open_rb :: "string \<Rightarrow> world \<Rightarrow> exn + fileobj" where
  "open_rb file_name w =
     (case fs w file_name of
        None \<Rightarrow> Inl FileNotFoundError
      | Some fl \<Rightarrow>
          if readable fl then Inr \<lparr>data = content fl, pos = 0, faulty = damaged fl\<rparr>
          else Inl PermissionError)"

definition open_rpb :: "string \<Rightarrow> world \<Rightarrow> exn + fileobj" where
  "open_rpb file_name w =
     (case fs w file_name of
        None \<Rightarrow> Inl FileNotFoundError
      | Some fl \<Rightarrow>
          if readable fl \<and> writable fl
          then Inr \<lparr>data = content fl, pos = 0, faulty = damaged fl\<rparr>
          else Inl PermissionError)"

text \<open>\<^verbatim>\<open>f.readlines()\<close>: the lines from the position to the end; the position moves there.\<close>

definition f_readlines :: "fileobj \<Rightarrow> exn + (byte list list \<times> fileobj)" where
  "f_readlines f =
     (if faulty f then Inl OSError
      else Inr (readlines (drop (pos f) (data f)), f\<lparr>pos := max (pos f) (length (data f))\<rparr>))"

definition f_seek :: "nat \<Rightarrow> fileobj \<Rightarrow> fileobj" where
  "f_seek n f = f\<lparr>pos := n\<rparr>"

text \<open>
  \<^verbatim>\<open>f.write(bs)\<close>: the bytes overwrite what stands at the position and extend the file
  where they reach beyond its end (a gap before the position is filled with zeros).
\<close>

definition f_write :: "byte list \<Rightarrow> fileobj \<Rightarrow> fileobj" where
  "f_write bs f =
     f\<lparr>data := take (pos f) (data f) @ replicate (pos f - length (data f)) 0
                @ bs @ drop (pos f + length bs) (data f),
       pos := pos f + length bs\<rparr>"

text \<open>\<^verbatim>\<open>f.truncate()\<close>: the file ends at the current position.\<close>

definition f_truncate :: "fileobj \<Rightarrow> fileobj" where
  "f_truncate f =
     f\<lparr>data := take (pos f) (data f) @ replicate (pos f - length (data f)) 0\<rparr>"

text \<open>Leaving the \<^verbatim>\<open>with\<close> block of a file opened for update: its bytes reach the file.\<close>

definition f_close :: "string \<Rightarrow> fileobj \<Rightarrow> world \<Rightarrow> world" where
  "f_close file_name f w =
     (case fs w file_name of
        None \<Rightarrow> w
      | Some fl \<Rightarrow> w\<lparr>fs := (fs w)(file_name \<mapsto> fl\<lparr>content := data f\<rparr>)\<rparr>)"

text \<open>\<^verbatim>\<open>input(prompt)\<close>: the prompt is written, one line is read; end of input raises.\<close>

definition input :: "event \<Rightarrow> world \<Rightarrow> (exn + string) \<times> world" where
  "input prompt w =
     (case stdin w of
        [] \<Rightarrow> (Inl EOFError, w\<lparr>stdout := stdout w @ [prompt]\<rparr>)
      | a # rest \<Rightarrow> (Inr a, w\<lparr>stdout := stdout w @ [prompt], stdin := rest\<rparr>))"

section \<open>The functions of the module\<close>

subsection \<open>\<^verbatim>\<open>is_valid_path\<close> and \<^verbatim>\<open>is_valid\<close>\<close>

fun is_valid_path_loop :: "string list \<Rightarrow> string \<Rightarrow> bool" where
  "is_valid_path_loop [] filepath = True"
| "is_valid_path_loop (ign_dir # rest) filepath =
     (if sublist ign_dir filepath then False else is_valid_path_loop rest filepath)"

definition is_valid_path :: "string \<Rightarrow> bool" where
  "is_valid_path filepath = is_valid_path_loop IGNORE_FOLDERS filepath"

text \<open>
  \<open>module_file\<close> is the value of \<^verbatim>\<open>__file__\<close>, the path the module was loaded from. The
  function has no \<^verbatim>\<open>return\<close> after its last \<^verbatim>\<open>if\<close>: it returns \<^verbatim>\<open>None\<close> when the
  extension is not listed.
\<close>

definition is_valid :: "string \<Rightarrow> string \<Rightarrow> bool option" where
  "is_valid module_file filename =
     (let app_file_name = snd (os_path_split module_file) in
      if filename = app_file_name then Some False
      else
        let file_ext = snd (os_path_splitext filename) in
        if file_ext \<in> set TARGET_FILES then Some True
        else None)"

subsection \<open>\<^verbatim>\<open>walker\<close>\<close>

text \<open>
  The generator body, over the triples of \<^verbatim>\<open>os.walk\<close>: the paths it yields, in order.
  The generator is consumed while files are rewritten; rewriting changes file contents
  only and no operation of the model changes \<open>dirs\<close>, so the paths are the same
  whether they are produced one at a time or all at once.
\<close>

fun walker_loop :: "string \<Rightarrow> (string \<times> string list \<times> string list) list \<Rightarrow> string list" where
  "walker_loop module_file [] = []"
| "walker_loop module_file ((cur_dir, sub_dirs, sub_files) # rest) =
     (if \<not> is_valid_path cur_dir then walker_loop module_file rest
      else map (os_path_join cur_dir)
               (filter (\<lambda>fname. truthy (is_valid module_file fname)) sub_files)
           @ walker_loop module_file rest)"

definition walker :: "string \<Rightarrow> string \<Rightarrow> world \<Rightarrow> string list" where
  "walker module_file init_path w =
     walker_loop module_file (os_walk init_path (dirs w init_path))"

subsection \<open>\<^verbatim>\<open>cr_infile_searching\<close>\<close>

text \<open>
  The loop over \<^verbatim>\<open>enumerate(f.readlines())\<close>, from the flag \<open>has_cr\<close>, the lines printed so
  far and the number of lines examined so far. It returns the value returned by the
  function, the lines printed, and the number of lines on which the test
  \<^verbatim>\<open>line.endswith(b'\r\n')\<close> ran.
\<close>

fun searching_loop ::
  "string \<Rightarrow> bool \<Rightarrow> (nat \<times> byte list) list \<Rightarrow> bool \<Rightarrow> event list \<Rightarrow> nat
     \<Rightarrow> bool \<times> event list \<times> nat" where
  "searching_loop file_name verbose [] has_cr out n = (has_cr, out, n)"
| "searching_loop file_name verbose ((i, line) # rest) has_cr out n =
     (if endswith line CRLF
      then (if verbose
            then searching_loop file_name verbose rest True
                   (out @ [Win32Line file_name i line]) (Suc n)
            else (True, out, Suc n))
      else searching_loop file_name verbose rest has_cr out (Suc n))"

text \<open>
  The \<^verbatim>\<open>try\<close> block and its handler: a failure of \<^verbatim>\<open>open\<close> or of \<^verbatim>\<open>readlines\<close> is printed
  and the function returns \<^verbatim>\<open>None\<close>. The file is opened for reading only; closing it
  changes nothing.
\<close>

definition cr_infile_searching :: "string \<Rightarrow> bool \<Rightarrow> world \<Rightarrow> bool option \<times> world" where
  "cr_infile_searching file_name verbose w =
     (case open_rb file_name w of
        Inl e \<Rightarrow> (None, w\<lparr>stdout := stdout w @ [CantRead file_name e]\<rparr>)
      | Inr f \<Rightarrow>
          (case f_readlines f of
             Inl e \<Rightarrow> (None, w\<lparr>stdout := stdout w @ [CantRead file_name e]\<rparr>)
           | Inr (lines, f') \<Rightarrow>
               (case searching_loop file_name verbose (enumerate 0 lines) False [] 0 of
                  (has_cr, out, n) \<Rightarrow> (Some has_cr, w\<lparr>stdout := stdout w @ out\<rparr>))))"

subsection \<open>\<^verbatim>\<open>cr_cleaner\<close>\<close>

text \<open>The value of \<open>line\<close> that the loop body passes to \<^verbatim>\<open>f.write\<close>.\<close>

definition clean_line :: "byte list \<Rightarrow> byte list" where
  "clean_line line =
     (if endswith line CRLF then bytes_replace CRLF NL line else line)"

fun write_lines :: "byte list list \<Rightarrow> fileobj \<Rightarrow> fileobj" where
  "write_lines [] f = f"
| "write_lines (line # rest) f = write_lines rest (f_write (clean_line line) f)"

text \<open>The \<^verbatim>\<open>with\<close> block: an exception leaves the block through the closing of the file.\<close>

definition rewrite_file :: "string \<Rightarrow> world \<Rightarrow> (exn + unit) \<times> world" where
  "rewrite_file file_name w =
     (case open_rpb file_name w of
        Inl e \<Rightarrow> (Inl e, w)
      | Inr f \<Rightarrow>
          (case f_readlines f of
             Inl e \<Rightarrow> (Inl e, f_close file_name f w)
           | Inr (new_f, f1) \<Rightarrow>
               (let f2 = f_seek 0 f1;
                    f3 = write_lines new_f f2;
                    f4 = f_truncate f3
                in (Inr (), f_close file_name f4 w))))"

text \<open>
  The confirmation of safe mode. The prompt is formatted from the local name \<open>f\<close>, whose
  value (if it is bound) is the argument; the prompt is formatted before \<^verbatim>\<open>input\<close> is
  called. The result says whether the function goes on to the \<^verbatim>\<open>with\<close> block.
\<close>

datatype flow = Returned | Proceed

definition confirm :: "fileobj option \<Rightarrow> world \<Rightarrow> (exn + flow) \<times> world" where
  "confirm f w =
     (case f of
        None \<Rightarrow> (Inl UnboundLocalError, w)
      | Some fo \<Rightarrow>
          (case input (ClearPrompt fo) w of
             (Inl e, w') \<Rightarrow> (Inl e, w')
           | (Inr a, w') \<Rightarrow>
               (if take 1 (lower a) \<noteq> ''y'' then (Inr Returned, w') else (Inr Proceed, w'))))"

text \<open>
  \<open>f\<close> is a local name of the function, since the \<^verbatim>\<open>with\<close> statement binds it; before that
  statement it is unbound, which is the \<open>None\<close> passed to \<open>confirm\<close>.
\<close>

definition cr_cleaner :: "string \<Rightarrow> bool \<Rightarrow> world \<Rightarrow> (exn + unit) \<times> world" where
  "cr_cleaner file_name safe_mode w =
     (if safe_mode
      then (case confirm None w of
              (Inl e, w') \<Rightarrow> (Inl e, w')
            | (Inr Returned, w') \<Rightarrow> (Inr (), w')
            | (Inr Proceed, w') \<Rightarrow> rewrite_file file_name w')
      else rewrite_file file_name w)"

text \<open>What a run of the \<^verbatim>\<open>with\<close> block leaves in a file that held \<open>s\<close>.\<close>

definition clean_content :: "byte list \<Rightarrow> byte list" where
  "clean_content s = concat (map clean_line (readlines s))"

subsection \<open>\<^verbatim>\<open>cr_finder\<close>\<close>

text \<open>The loop over the paths of the walker; an exception of \<^verbatim>\<open>cr_cleaner\<close> ends it.\<close>

fun cr_finder_loop ::
  "string list \<Rightarrow> bool \<Rightarrow> bool \<Rightarrow> bool \<Rightarrow> world \<Rightarrow> (exn + unit) \<times> world" where
  "cr_finder_loop [] only_inspect verbose safe_mode w = (Inr (), w)"
| "cr_finder_loop (file_path # rest) only_inspect verbose safe_mode w =
     (case cr_infile_searching file_path verbose w of
        (has_cr, w1) \<Rightarrow>
          if truthy has_cr \<and> \<not> only_inspect
          then (case cr_cleaner file_path safe_mode w1 of
                  (Inl e, w2) \<Rightarrow> (Inl e, w2)
                | (Inr u, w2) \<Rightarrow> cr_finder_loop rest only_inspect verbose safe_mode w2)
          else cr_finder_loop rest only_inspect verbose safe_mode w1)"

definition cr_finder ::
  "string \<Rightarrow> string \<Rightarrow> bool \<Rightarrow> bool \<Rightarrow> bool \<Rightarrow> world \<Rightarrow> (exn + unit) \<times> world" where
  "cr_finder module_file init_dir only_inspect verbose safe_mode w =
     cr_finder_loop (walker module_file init_dir w) only_inspect verbose safe_mode w"

section \<open>Notions the statements use\<close>

text \<open>
  The replacement of every occurrence of CR+LF in the whole content of a file, with no
  cut into lines and no test on how a line ends: the transformation the guarded loop of
  \<^verbatim>\<open>cr_cleaner\<close> is compared with.
\<close>

definition replace_everywhere :: "byte list \<Rightarrow> byte list" where
  "replace_everywhere s = bytes_replace CRLF NL s"

text \<open>The exception that opening a file for reading, or reading its lines, raises.\<close>

definition read_failure :: "string \<Rightarrow> world \<Rightarrow> exn option" where
  "read_failure file_name w =
     (case open_rb file_name w of
        Inl e \<Rightarrow> Some e
      | Inr f \<Rightarrow> (case f_readlines f of Inl e \<Rightarrow> Some e | Inr r \<Rightarrow> None))"

text \<open>The number of lines the loop of \<^verbatim>\<open>cr_infile_searching\<close> examines on given lines.\<close>

definition examined :: "string \<Rightarrow> bool \<Rightarrow> byte list list \<Rightarrow> nat" where
  "examined file_name verbose lines =
     snd (snd (searching_loop file_name verbose (enumerate 0 lines) False [] 0))"

text \<open>The lines a verbose inspection prints for given lines of a file.\<close>

definition reports :: "string \<Rightarrow> byte list list \<Rightarrow> event list" where
  "reports file_name lines =
     map (\<lambda>il. Win32Line file_name (fst il) (snd il))
         (filter (\<lambda>il. endswith (snd il) CRLF) (enumerate 0 lines))"

text \<open>
  Names of directory entries are not empty and hold no slash. A tree is well formed when
  all its entries have such names.
\<close>

definition entry_name :: "string \<Rightarrow> bool" where
  "entry_name n = (n \<noteq> [] \<and> CHR ''/'' \<notin> set n)"

fun wf_tree :: "tree \<Rightarrow> bool" where
  "wf_tree NoDir = True"
| "wf_tree (Dir subs files) =
     (list_all (\<lambda>nt. entry_name (fst nt) \<and> wf_tree (snd nt)) subs \<and> list_all entry_name files)"

text \<open>The tree found by going down from a tree through sub-directories of given names.\<close>

fun subtree_at :: "tree \<Rightarrow> string list \<Rightarrow> tree option" where
  "subtree_at t [] = Some t"
| "subtree_at NoDir (n # ns) = None"
| "subtree_at (Dir subs files) (n # ns) =
     (case map_of subs n of None \<Rightarrow> None | Some t' \<Rightarrow> subtree_at t' ns)"

text \<open>The path \<^verbatim>\<open>os.walk\<close> gives to that tree.\<close>

definition path_at :: "string \<Rightarrow> string list \<Rightarrow> string" where
  "path_at init_path ns = foldl os_path_join init_path ns"

subsection \<open>Example inputs\<close>

definition plain_file :: "byte list \<Rightarrow> disk_file" where
  "plain_file s = \<lparr>content = s, readable = True, writable = True, damaged = False\<rparr>"

definition locked_file :: "byte list \<Rightarrow> disk_file" where
  "locked_file s = \<lparr>content = s, readable = False, writable = False, damaged = False\<rparr>"

text \<open>
  A project directory \<^verbatim>\<open>r\<close> with a file \<^verbatim>\<open>a.py\<close>, a repository directory \<^verbatim>\<open>.git\<close> that has a
  sub-directory \<^verbatim>\<open>hooks\<close>, and a directory \<^verbatim>\<open>src\<close> with five files.
\<close>

definition ex_tree :: tree where
  "ex_tree =
     Dir [(''.git'', Dir [(''hooks'', Dir [] [''pre.py''])] [''x.py'']),
          (''src'', Dir [] [''b.py'', ''notes.txt'', ''locked.py'', ''c.py'', ''clean.py''])]
         [''a.py'']"

text \<open>
  The contents: \<^verbatim>\<open>a.py\<close> is \<^verbatim>\<open>b'p\r\nq\n'\<close>, \<^verbatim>\<open>b.py\<close> is \<^verbatim>\<open>b'a\r\r\n'\<close>, \<^verbatim>\<open>c.py\<close> is
  \<^verbatim>\<open>b'q\np\r\nz\r\n'\<close>, \<^verbatim>\<open>clean.py\<close> is \<^verbatim>\<open>b'q\n'\<close>, and \<^verbatim>\<open>locked.py\<close> may not be read. One
  answer, \<^verbatim>\<open>y\<close>, waits on standard input.
\<close>

definition ex_fs :: "string \<rightharpoonup> disk_file" where
  "ex_fs =
     [''r/a.py'' \<mapsto> plain_file [0x70, CR, LF, 0x71, LF],
      ''r/src/b.py'' \<mapsto> plain_file [0x61, CR, CR, LF],
      ''r/src/notes.txt'' \<mapsto> plain_file [0x6F, 0x6B, CR, LF],
      ''r/src/locked.py'' \<mapsto> locked_file [0x78, CR, LF],
      ''r/src/c.py'' \<mapsto> plain_file [0x71, LF, 0x70, CR, LF, 0x7A, CR, LF],
      ''r/src/clean.py'' \<mapsto> plain_file [0x71, LF],
      ''r/.git/x.py'' \<mapsto> plain_file [0x78, CR, LF],
      ''r/.git/hooks/pre.py'' \<mapsto> plain_file [0x78, CR, LF]]"

definition ex_world :: world where
  "ex_world =
     \<lparr>fs = ex_fs,
      dirs = (\<lambda>p. if p = ''r'' then ex_tree else NoDir),
      stdout = [],
      stdin = [''y'']\<rparr>"

definition ex_module_file :: string where
  "ex_module_file = ''/opt/hets_modules/modules/cr_cleaner.py''"

section \<open>Lines and the replacement of CR+LF\<close>

lemma CR_neq_LF [simp]: "CR \<noteq> LF" "LF \<noteq> CR"
  by (simp_all add: CR_def LF_def)

lemma replace_crlf_Nil [simp]: "bytes_replace CRLF NL [] = []"
  by (simp add: CRLF_def)

lemma replace_crlf_hit [simp]:
  "bytes_replace CRLF NL (CR # LF # bs) = LF # bytes_replace CRLF NL bs"
  by (simp add: CRLF_def NL_def)

lemma replace_crlf_miss:
  "\<not> (b = CR \<and> (\<exists>bs'. bs = LF # bs')) \<Longrightarrow>
   bytes_replace CRLF NL (b # bs) = b # bytes_replace CRLF NL bs"
  by (cases bs) (auto simp add: CRLF_def)

lemma replace_crlf_LF [simp]:
  "bytes_replace CRLF NL (LF # bs) = LF # bytes_replace CRLF NL bs"
  by (simp add: replace_crlf_miss)

lemma crlf_induct [case_names Nil LF CRLF Other]:
  assumes "P []"
    and "\<And>bs. P bs \<Longrightarrow> P (LF # bs)"
    and "\<And>bs. P bs \<Longrightarrow> P (CR # LF # bs)"
    and "\<And>b bs. b \<noteq> LF \<Longrightarrow> \<not> (b = CR \<and> (\<exists>bs'. bs = LF # bs')) \<Longrightarrow> P bs \<Longrightarrow> P (b # bs)"
  shows "P s"
proof (induction s rule: length_induct)
  case (1 xs)
  show ?case
  proof (cases xs)
    case Nil
    then show ?thesis using assms(1) by simp
  next
    case (Cons b bs)
    show ?thesis
    proof (cases "b = LF")
      case True
      then show ?thesis using Cons 1 assms(2) by simp
    next
      case nlf: False
      show ?thesis
      proof (cases "b = CR \<and> (\<exists>bs'. bs = LF # bs')")
        case True
        then obtain bs' where "bs = LF # bs'" by blast
        then show ?thesis using True Cons 1 assms(3) by simp
      next
        case False
        then show ?thesis using nlf Cons 1 assms(4) by simp
      qed
    qed
  qed
qed

lemma readlines_Nil_iff [simp]: "readlines s = [] \<longleftrightarrow> s = []"
  by (cases s) (auto split: list.splits)

lemma concat_readlines [simp]: "concat (readlines s) = s"
  by (induction s) (auto split: list.splits)

lemma readlines_nonempty: "l \<in> set (readlines s) \<Longrightarrow> l \<noteq> []"
  by (induction s arbitrary: l) (auto split: list.splits if_splits)

lemma readlines_body: "l \<in> set (readlines s) \<Longrightarrow> LF \<notin> set (butlast l)"
proof (induction s arbitrary: l)
  case Nil
  then show ?case by simp
next
  case (Cons b bs)
  show ?case
  proof (cases "b = LF")
    case True
    then show ?thesis using Cons by auto
  next
    case False
    show ?thesis
    proof (cases "readlines bs")
      case Nil
      then show ?thesis using Cons False by auto
    next
      case (Cons l' ls)
      have ne: "l' \<noteq> []" using readlines_nonempty [of l' bs] Cons by simp
      have "LF \<notin> set (butlast l')" using Cons.IH [of l'] Cons by simp
      then have "LF \<notin> set (butlast (b # l'))" using False ne by simp
      moreover have "l = b # l' \<or> l \<in> set (readlines bs)"
        using Cons.prems False Cons by auto
      ultimately show ?thesis using Cons.IH by blast
    qed
  qed
qed

lemma readlines_first: "readlines bs = l # ls \<Longrightarrow> \<exists>t. l = hd bs # t"
  by (cases bs) (auto split: list.splits if_splits)

lemma endswith_crlf_Cons:
  "endswith (b # x # y # t) CRLF = endswith (x # y # t) CRLF"
  by (auto simp add: endswith_def CRLF_def suffix_Cons)

lemma endswith_crlf_two: "endswith [b, x] CRLF \<longleftrightarrow> b = CR \<and> x = LF"
  by (auto simp add: endswith_def CRLF_def suffix_Cons)

lemma endswith_crlf_short [simp]: "\<not> endswith [] CRLF" "\<not> endswith [b] CRLF"
  by (auto simp add: endswith_def CRLF_def suffix_Cons)

lemma clean_line_Cons:
  assumes "\<not> (b = CR \<and> (\<exists>bs'. bs = LF # bs'))" and "readlines bs = l # ls"
  shows "clean_line (b # l) = b # clean_line l"
proof -
  obtain t where l: "l = hd bs # t" using readlines_first [OF assms(2)] by blast
  have bs: "bs \<noteq> []" using assms(2) by auto
  show ?thesis
  proof (cases t)
    case Nil
    have "\<not> (b = CR \<and> hd bs = LF)"
    proof
      assume h: "b = CR \<and> hd bs = LF"
      from assms(2) l Nil have "readlines bs = [hd bs] # ls" by simp
      with bs h have "\<exists>bs'. bs = LF # bs'" by (cases bs) auto
      with h assms(1) show False by blast
    qed
    then show ?thesis using l Nil
      by (auto simp add: clean_line_def endswith_crlf_two)
  next
    case (Cons y ys)
    have miss: "\<not> (b = CR \<and> (\<exists>l'. l = LF # l'))"
      using assms(1) l bs by (cases bs) auto
    show ?thesis using miss unfolding l Cons
      by (simp add: clean_line_def endswith_crlf_Cons replace_crlf_miss del: bytes_replace.simps)
  qed
qed

lemma readlines_Cons_LF [simp]: "readlines (LF # bs) = [LF] # readlines bs"
  by simp

lemma readlines_CRLF [simp]: "readlines (CR # LF # bs) = [CR, LF] # readlines bs"
  by simp

lemma clean_line_LF [simp]: "clean_line [LF] = [LF]"
  by (simp add: clean_line_def)

lemma clean_line_CRLF [simp]: "clean_line [CR, LF] = [LF]"
  by (simp add: clean_line_def endswith_crlf_two)

lemma clean_line_single: "clean_line [b] = [b]"
  by (simp add: clean_line_def)

lemma map_clean_readlines_other:
  assumes "b \<noteq> LF" and "\<not> (b = CR \<and> (\<exists>bs'. bs = LF # bs'))"
  shows "map clean_line (readlines (b # bs)) =
         (case map clean_line (readlines bs) of [] \<Rightarrow> [[b]] | l # ls \<Rightarrow> (b # l) # ls)"
proof (cases "readlines bs")
  case Nil
  then show ?thesis using assms(1) by (simp add: clean_line_single)
next
  case (Cons l ls)
  then show ?thesis using assms(1) clean_line_Cons [OF assms(2) Cons] by simp
qed

lemma clean_content_replace: "clean_content s = bytes_replace CRLF NL s"
proof (induction s rule: crlf_induct)
  case Nil
  then show ?case by (simp add: clean_content_def)
next
  case (LF bs)
  then show ?case by (simp add: clean_content_def)
next
  case (CRLF bs)
  then show ?case by (simp add: clean_content_def del: readlines.simps)
next
  case (Other b bs)
  have "clean_content (b # bs) = b # clean_content bs"
    unfolding clean_content_def map_clean_readlines_other [OF Other(1,2)]
    by (simp split: list.splits)
  then show ?case using Other by (simp add: replace_crlf_miss)
qed

lemma readlines_replace:
  "readlines (bytes_replace CRLF NL s) = map clean_line (readlines s)"
proof (induction s rule: crlf_induct)
  case Nil
  then show ?case by simp
next
  case (LF bs)
  then show ?case by simp
next
  case (CRLF bs)
  then show ?case by (simp del: readlines.simps)
next
  case (Other b bs)
  show ?case
    unfolding map_clean_readlines_other [OF Other(1,2)] replace_crlf_miss [OF Other(2)]
    using Other(1,3) by simp
qed

lemma readlines_clean_content:
  "readlines (clean_content s) = map clean_line (readlines s)"
  by (simp add: clean_content_replace readlines_replace)

lemma length_replace_crlf: "length (bytes_replace CRLF NL s) \<le> length s"
  by (induction s rule: crlf_induct) (simp_all add: replace_crlf_miss)

lemma length_clean_content: "length (clean_content s) \<le> length s"
  by (simp add: clean_content_replace length_replace_crlf)

lemma replace_crlf_body:
  "LF \<notin> set body \<Longrightarrow> bytes_replace CRLF NL (body @ [CR, LF]) = body @ [LF]"
proof (induction body)
  case Nil
  then show ?case by simp
next
  case (Cons b body)
  have "\<not> (b = CR \<and> (\<exists>bs'. body @ [CR, LF] = LF # bs'))"
    using Cons.prems by (cases body) auto
  then show ?case using Cons by (simp add: replace_crlf_miss del: bytes_replace.simps)
qed

lemma endswith_crlf_split:
  "endswith l CRLF \<Longrightarrow> l = butlast (butlast l) @ [CR, LF]"
  by (auto simp add: endswith_def CRLF_def suffix_def butlast_append)

lemma clean_line_ending:
  assumes "l \<in> set (readlines s)"
  shows "endswith (clean_line l) CRLF \<longleftrightarrow> endswith l [CR, CR, LF]"
proof (cases "endswith l CRLF")
  case True
  define body where "body = butlast (butlast l)"
  have l: "l = body @ [CR, LF]" using endswith_crlf_split [OF True] body_def by simp
  have "LF \<notin> set (butlast l)" using readlines_body [OF assms] .
  then have "LF \<notin> set body" using l by (simp add: butlast_append)
  then have "clean_line l = body @ [LF]"
    using True l replace_crlf_body [of body] by (simp add: clean_line_def)
  then show ?thesis using l
    by (auto simp add: endswith_def CRLF_def suffix_def)
next
  case False
  then show ?thesis
    by (auto simp add: clean_line_def endswith_def CRLF_def suffix_def)
qed

lemma replace_crlf_head:
  "bytes_replace CRLF NL bs = LF # t \<Longrightarrow>
     (\<exists>u. bs = LF # u) \<or> (\<exists>u. bs = CR # LF # u)"
proof (cases bs)
  case Nil
  assume "bytes_replace CRLF NL bs = LF # t"
  then show ?thesis using Nil by simp
next
  case (Cons b bs')
  assume a: "bytes_replace CRLF NL bs = LF # t"
  show ?thesis
  proof (cases "b = CR \<and> (\<exists>u. bs' = LF # u)")
    case True
    then show ?thesis using Cons by auto
  next
    case False
    then show ?thesis using a Cons by (simp add: replace_crlf_miss del: bytes_replace.simps)
  qed
qed

lemma sublist_crlf_Cons:
  "sublist CRLF (b # bs) \<longleftrightarrow> (b = CR \<and> (\<exists>u. bs = LF # u)) \<or> sublist CRLF bs"
  by (cases bs) (auto simp add: sublist_Cons_right CRLF_def)

lemma replace_crlf_clean: "\<not> sublist CRLF s \<Longrightarrow> bytes_replace CRLF NL s = s"
  by (induction s) (auto simp add: sublist_crlf_Cons replace_crlf_miss simp del: bytes_replace.simps)

lemma sublist_ccl_Cons:
  "sublist [CR, CR, LF] (b # bs) \<longleftrightarrow>
     (b = CR \<and> (\<exists>u. bs = CR # LF # u)) \<or> sublist [CR, CR, LF] bs"
  by (auto simp add: sublist_Cons_right prefix_def)

lemma replace_crlf_no_crlf:
  "\<not> sublist [CR, CR, LF] s \<Longrightarrow> \<not> sublist CRLF (bytes_replace CRLF NL s)"
proof (induction s rule: crlf_induct)
  case Nil
  then show ?case by (simp add: CRLF_def)
next
  case (LF bs)
  then show ?case by (simp add: sublist_crlf_Cons sublist_ccl_Cons)
next
  case (CRLF bs)
  then show ?case by (simp add: sublist_crlf_Cons sublist_ccl_Cons)
next
  case (Other b bs)
  have no: "\<not> sublist CRLF (bytes_replace CRLF NL bs)"
    using Other by (simp add: sublist_ccl_Cons)
  have "\<not> (b = CR \<and> (\<exists>u. bytes_replace CRLF NL bs = LF # u))"
  proof
    assume h: "b = CR \<and> (\<exists>u. bytes_replace CRLF NL bs = LF # u)"
    then obtain u where "bytes_replace CRLF NL bs = LF # u" by blast
    from replace_crlf_head [OF this] h Other(2,4) show False
      by (auto simp add: sublist_ccl_Cons)
  qed
  then show ?case using no
    by (simp add: replace_crlf_miss [OF Other(2)] sublist_crlf_Cons)
qed

section \<open>The rewriting of a file\<close>

lemma f_write_inside:
  "pos f \<le> length (data f) \<Longrightarrow>
   f_write bs f = f\<lparr>data := take (pos f) (data f) @ bs @ drop (pos f + length bs) (data f),
                     pos := pos f + length bs\<rparr>"
  by (simp add: f_write_def)

lemma write_lines_result:
  "pos f \<le> length (data f) \<Longrightarrow>
   write_lines ls f =
     f\<lparr>data := take (pos f) (data f) @ concat (map clean_line ls)
                @ drop (pos f + length (concat (map clean_line ls))) (data f),
       pos := pos f + length (concat (map clean_line ls))\<rparr>"
proof (induction ls arbitrary: f)
  case Nil
  then show ?case by simp
next
  case (Cons l ls)
  let ?c = "clean_line l"
  let ?f1 = "f_write ?c f"
  have f1: "?f1 = f\<lparr>data := take (pos f) (data f) @ ?c @ drop (pos f + length ?c) (data f),
                     pos := pos f + length ?c\<rparr>"
    using Cons.prems by (rule f_write_inside)
  have inv: "pos ?f1 \<le> length (data ?f1)" using Cons.prems by (simp add: f1)
  show ?case
    unfolding write_lines.simps Cons.IH [OF inv]
    using Cons.prems by (simp add: f1 add.assoc add.commute add.left_commute)
qed

lemma write_lines_from_start:
  "write_lines ls \<lparr>data = d, pos = 0, faulty = b\<rparr> =
     \<lparr>data = concat (map clean_line ls) @ drop (length (concat (map clean_line ls))) d,
      pos = length (concat (map clean_line ls)), faulty = b\<rparr>"
  using write_lines_result [of "\<lparr>data = d, pos = 0, faulty = b\<rparr>" ls] by simp

lemma rewrite_file_ok:
  assumes "fs w file_name = Some fl" "readable fl" "writable fl" "\<not> damaged fl"
  shows "rewrite_file file_name w =
           (Inr (), w\<lparr>fs := (fs w)(file_name \<mapsto> fl\<lparr>content := clean_content (content fl)\<rparr>)\<rparr>)"
  using assms
  by (simp add: rewrite_file_def open_rpb_def f_readlines_def f_seek_def f_truncate_def
      f_close_def write_lines_from_start clean_content_def)

section \<open>The claims on the rewriting\<close>

lemmas ex_defs =
  ex_world_def ex_fs_def plain_file_def locked_file_def ex_tree_def ex_module_file_def

lemmas byte_eval =
  clean_content_def clean_line_def endswith_def CRLF_def NL_def CR_def LF_def suffix_to_prefix

text \<open>
  Claim C10. The guarded loop of \<^verbatim>\<open>cr_cleaner\<close> produces the content with every occurrence
  of CR+LF replaced by LF. For every content \<open>s\<close>: the file object that has read the lines
  of \<open>s\<close>, is set back to the start, is written line by line by the loop (CR+LF replaced
  by LF only in the lines that end with CR+LF) and is truncated, holds exactly the
  replacement made over the whole of \<open>s\<close> with no cut into lines, and stands at its end;
  the lines the loop writes, one after the other, are that replacement; and on every
  file that can be opened for update and read, the \<^verbatim>\<open>with\<close> block, and \<^verbatim>\<open>cr_cleaner\<close>
  without safe mode, return normally and leave that replacement of the content in the
  file.
\<close>

theorem guarded_rewrite_refines_replace:
  "f_truncate (write_lines (readlines s) (f_seek 0 \<lparr>data = s, pos = length s, faulty = b\<rparr>))
     = \<lparr>data = replace_everywhere s, pos = length (replace_everywhere s), faulty = b\<rparr>
   \<and> clean_content s = replace_everywhere s
   \<and> (fs w file_name = Some fl \<and> readable fl \<and> writable fl \<and> \<not> damaged fl \<longrightarrow>
        rewrite_file file_name w
          = (Inr (), w\<lparr>fs := (fs w)(file_name \<mapsto> fl\<lparr>content := replace_everywhere (content fl)\<rparr>)\<rparr>)
        \<and> cr_cleaner file_name False w
          = (Inr (), w\<lparr>fs := (fs w)(file_name \<mapsto> fl\<lparr>content := replace_everywhere (content fl)\<rparr>)\<rparr>))"
proof -
  have eq: "clean_content t = replace_everywhere t" for t
    by (simp add: clean_content_replace replace_everywhere_def)
  have loop: "f_truncate (write_lines (readlines s) (f_seek 0 \<lparr>data = s, pos = length s, faulty = b\<rparr>))
     = \<lparr>data = replace_everywhere s, pos = length (replace_everywhere s), faulty = b\<rparr>"
    using eq [of s]
    by (simp add: f_seek_def f_truncate_def write_lines_from_start clean_content_def)
  have run: "rewrite_file file_name w
          = (Inr (), w\<lparr>fs := (fs w)(file_name \<mapsto> fl\<lparr>content := replace_everywhere (content fl)\<rparr>)\<rparr>)
        \<and> cr_cleaner file_name False w
          = (Inr (), w\<lparr>fs := (fs w)(file_name \<mapsto> fl\<lparr>content := replace_everywhere (content fl)\<rparr>)\<rparr>)"
    if "fs w file_name = Some fl" "readable fl" "writable fl" "\<not> damaged fl"
    using rewrite_file_ok [OF that] eq [of "content fl"] by (simp add: cr_cleaner_def)
  from loop eq run show ?thesis by blast
qed

text \<open>
  C10 on \<^verbatim>\<open>c.py\<close> of the example, \<^verbatim>\<open>b'q\np\r\nz\r\n'\<close>, through the loop and through
  \<^verbatim>\<open>cr_cleaner\<close>, and the two sides on \<^verbatim>\<open>b'a\r\r\nb\n\r\nc'\<close>.
\<close>

theorem guarded_rewrite_refines_replace_witness:
  "replace_everywhere [0x71, LF, 0x70, CR, LF, 0x7A, CR, LF] = [0x71, LF, 0x70, LF, 0x7A, LF]
   \<and> clean_content [0x71, LF, 0x70, CR, LF, 0x7A, CR, LF] = [0x71, LF, 0x70, LF, 0x7A, LF]
   \<and> data (f_truncate (write_lines (readlines [0x71, LF, 0x70, CR, LF, 0x7A, CR, LF])
             (f_seek 0 \<lparr>data = [0x71, LF, 0x70, CR, LF, 0x7A, CR, LF], pos = 8, faulty = False\<rparr>)))
       = [0x71, LF, 0x70, LF, 0x7A, LF]
   \<and> fs ex_world ''r/src/c.py'' = Some (plain_file [0x71, LF, 0x70, CR, LF, 0x7A, CR, LF])
   \<and> fst (cr_cleaner ''r/src/c.py'' False ex_world) = Inr ()
   \<and> fs (snd (cr_cleaner ''r/src/c.py'' False ex_world)) ''r/src/c.py''
       = Some (plain_file [0x71, LF, 0x70, LF, 0x7A, LF])
   \<and> replace_everywhere [0x61, CR, CR, LF, 0x62, LF, CR, LF, 0x63]
       = [0x61, CR, LF, 0x62, LF, LF, 0x63]
   \<and> clean_content [0x61, CR, CR, LF, 0x62, LF, CR, LF, 0x63]
       = [0x61, CR, LF, 0x62, LF, LF, 0x63]"
proof -
  let ?s = "[0x71, LF, 0x70, CR, LF, 0x7A, CR, LF]"
  let ?t = "[0x71, LF, 0x70, LF, 0x7A, LF]"
  let ?u = "[0x61, CR, CR, LF, 0x62, LF, CR, LF, 0x63]"
  have f: "fs ex_world ''r/src/c.py'' = Some (plain_file ?s)"
    by (simp add: ex_defs)
  have p: "readable (plain_file ?s)" "writable (plain_file ?s)" "\<not> damaged (plain_file ?s)"
    by (simp_all add: plain_file_def)
  have pc: "content (plain_file ?s) = ?s"
    by (simp add: plain_file_def)
  have rs: "replace_everywhere ?s = ?t"
    by (simp add: replace_everywhere_def CRLF_def NL_def CR_def LF_def)
  have ru: "replace_everywhere ?u = [0x61, CR, LF, 0x62, LF, LF, 0x63]"
    by (simp add: replace_everywhere_def CRLF_def NL_def CR_def LF_def)
  note th = guarded_rewrite_refines_replace [of ?s False ex_world "''r/src/c.py''" "plain_file ?s"]
  note thu = guarded_rewrite_refines_replace [of ?u False ex_world "''r/src/c.py''" "plain_file ?s"]
  have len: "length ?s = 8" by simp
  have a: "data (f_truncate (write_lines (readlines ?s)
             (f_seek 0 \<lparr>data = ?s, pos = 8, faulty = False\<rparr>))) = ?t"
    using th [THEN conjunct1] unfolding len rs by simp
  have b: "clean_content ?s = ?t"
    using th [THEN conjunct2, THEN conjunct1] rs by simp
  have run: "cr_cleaner ''r/src/c.py'' False ex_world
      = (Inr (), ex_world\<lparr>fs := (fs ex_world)(''r/src/c.py'' \<mapsto> (plain_file ?s)\<lparr>content := ?t\<rparr>)\<rparr>)"
    using th [THEN conjunct2, THEN conjunct2] f p unfolding pc rs by blast
  have c1: "fst (cr_cleaner ''r/src/c.py'' False ex_world) = Inr ()"
    using run by simp
  have c2: "fs (snd (cr_cleaner ''r/src/c.py'' False ex_world)) ''r/src/c.py'' = Some (plain_file ?t)"
    using run by (simp add: plain_file_def)
  have d: "clean_content ?u = [0x61, CR, LF, 0x62, LF, LF, 0x63]"
    using thu [THEN conjunct2, THEN conjunct1] ru by simp
  from rs b a f c1 c2 ru d show ?thesis by blast
qed

text \<open>
  Claim C2, as the code has it. On a file that can be opened for update and read,
  \<^verbatim>\<open>cr_cleaner\<close> without safe mode returns normally and leaves in the file the cleaned
  lines one after the other and nothing else. The lines of the result are the cleaned
  lines of the input, one for one. A line that did not end with CR+LF is unchanged. A
  line of the result ends with CR+LF exactly when the input line ended with CR, CR, LF:
  one CR is removed from a line, not all of them. The length of the result is the
  position the file object has reached after the writes, that is the number of bytes
  written, and it is at most the length of the input.
\<close>

theorem cr_cleaner_rewrite:
  assumes "fs w file_name = Some fl" and "readable fl" and "writable fl" and "\<not> damaged fl"
    and "lines = readlines (content fl)" and "out = clean_content (content fl)"
  shows "cr_cleaner file_name False w
           = (Inr (), w\<lparr>fs := (fs w)(file_name \<mapsto> fl\<lparr>content := out\<rparr>)\<rparr>)
       \<and> readlines out = map clean_line lines
       \<and> (\<forall>i<length lines.
             (\<not> endswith (lines ! i) CRLF \<longrightarrow> readlines out ! i = lines ! i)
           \<and> (endswith (readlines out ! i) CRLF \<longleftrightarrow> endswith (lines ! i) [CR, CR, LF]))
       \<and> pos (write_lines lines \<lparr>data = content fl, pos = 0, faulty = False\<rparr>) = length out
       \<and> length out \<le> length (content fl)"
proof -
  have run: "cr_cleaner file_name False w
           = (Inr (), w\<lparr>fs := (fs w)(file_name \<mapsto> fl\<lparr>content := out\<rparr>)\<rparr>)"
    using rewrite_file_ok [OF assms(1-4)] assms(6) by (simp add: cr_cleaner_def)
  have ls: "readlines out = map clean_line lines"
    using assms(5,6) by (simp add: readlines_clean_content)
  have each: "\<forall>i<length lines.
             (\<not> endswith (lines ! i) CRLF \<longrightarrow> readlines out ! i = lines ! i)
           \<and> (endswith (readlines out ! i) CRLF \<longleftrightarrow> endswith (lines ! i) [CR, CR, LF])"
  proof (intro allI impI)
    fix i assume i: "i < length lines"
    then have mem: "lines ! i \<in> set (readlines (content fl))" using assms(5) by simp
    have "readlines out ! i = clean_line (lines ! i)" using ls i by simp
    then show "(\<not> endswith (lines ! i) CRLF \<longrightarrow> readlines out ! i = lines ! i)
           \<and> (endswith (readlines out ! i) CRLF \<longleftrightarrow> endswith (lines ! i) [CR, CR, LF])"
      using clean_line_ending [OF mem] by (simp add: clean_line_def)
  qed
  have written: "pos (write_lines lines \<lparr>data = content fl, pos = 0, faulty = False\<rparr>) = length out"
    using assms(5,6) by (simp add: write_lines_from_start clean_content_def)
  have "length out \<le> length (content fl)"
    using assms(6) by (simp add: length_clean_content)
  with run ls each written show ?thesis by blast
qed

text \<open>The rewrite of \<^verbatim>\<open>r/a.py\<close> in the example: \<^verbatim>\<open>b'p\r\nq\n'\<close> becomes \<^verbatim>\<open>b'p\nq\n'\<close>.\<close>

theorem cr_cleaner_rewrite_witness:
  "fs ex_world ''r/a.py'' = Some (plain_file [0x70, CR, LF, 0x71, LF])
   \<and> fst (cr_cleaner ''r/a.py'' False ex_world) = Inr ()
   \<and> fs (snd (cr_cleaner ''r/a.py'' False ex_world)) ''r/a.py''
       = Some (plain_file [0x70, LF, 0x71, LF])
   \<and> readlines [0x70, CR, LF, 0x71, LF] = [[0x70, CR, LF], [0x71, LF]]
   \<and> readlines (clean_content [0x70, CR, LF, 0x71, LF]) = [[0x70, LF], [0x71, LF]]
   \<and> \<not> endswith [0x70, LF] CRLF
   \<and> length (clean_content [0x70, CR, LF, 0x71, LF]) = 4"
proof -
  let ?s = "[0x70, CR, LF, 0x71, LF]"
  have f: "fs ex_world ''r/a.py'' = Some (plain_file ?s)"
    by (simp add: ex_defs)
  have c: "clean_content ?s = [0x70, LF, 0x71, LF]"
    by (simp add: byte_eval)
  have r: "readlines ?s = [[0x70, CR, LF], [0x71, LF]]"
    by (simp add: CR_def LF_def)
  have e: "\<not> endswith [0x70, LF] CRLF"
    by (simp add: byte_eval)
  have p: "readable (plain_file ?s)" "writable (plain_file ?s)" "\<not> damaged (plain_file ?s)"
    by (simp_all add: plain_file_def)
  have pc: "content (plain_file ?s) = ?s"
    by (simp add: plain_file_def)
  note th = cr_cleaner_rewrite [OF f p refl refl]
  note run = th [THEN conjunct1]
  note ls = th [THEN conjunct2, THEN conjunct1]
  note len = th [THEN conjunct2, THEN conjunct2, THEN conjunct2, THEN conjunct2]
  have r1: "fst (cr_cleaner ''r/a.py'' False ex_world) = Inr ()"
    using run by simp
  have r2: "fs (snd (cr_cleaner ''r/a.py'' False ex_world)) ''r/a.py''
       = Some (plain_file [0x70, LF, 0x71, LF])"
    using run c by (simp add: plain_file_def)
  have r3: "readlines (clean_content ?s) = [[0x70, LF], [0x71, LF]]"
    using ls c unfolding pc r by (simp add: clean_line_def endswith_def CRLF_def NL_def CR_def LF_def suffix_to_prefix)
  have r4: "length (clean_content ?s) = 4"
    using c by simp
  from f r1 r2 r r3 e r4 show ?thesis by blast
qed

text \<open>
  C2 as stated fails on \<^verbatim>\<open>r/src/b.py\<close>, whose only line is \<^verbatim>\<open>b'a\r\r\n'\<close>: after the rewrite
  the file holds \<^verbatim>\<open>b'a\r\n'\<close>, one line, which ends with CR+LF.
\<close>

theorem cr_cleaner_leaves_crlf:
  "fs ex_world ''r/src/b.py'' = Some (plain_file [0x61, CR, CR, LF])
   \<and> readlines [0x61, CR, CR, LF] = [[0x61, CR, CR, LF]]
   \<and> fst (cr_cleaner ''r/src/b.py'' False ex_world) = Inr ()
   \<and> fs (snd (cr_cleaner ''r/src/b.py'' False ex_world)) ''r/src/b.py''
       = Some (plain_file [0x61, CR, LF])
   \<and> readlines [0x61, CR, LF] = [[0x61, CR, LF]]
   \<and> endswith [0x61, CR, LF] CRLF"
  by (simp add: ex_defs cr_cleaner_def rewrite_file_def open_rpb_def f_readlines_def f_seek_def
      f_write_def f_truncate_def f_close_def byte_eval)

text \<open>
  C6 as stated fails on the content \<^verbatim>\<open>b'a\r\r\n'\<close>: one rewrite gives \<^verbatim>\<open>b'a\r\n'\<close>, a second
  one gives \<^verbatim>\<open>b'a\n'\<close>.
\<close>

theorem clean_content_not_idempotent:
  "clean_content [0x61, CR, CR, LF] = [0x61, CR, LF]
   \<and> clean_content (clean_content [0x61, CR, CR, LF]) = [0x61, LF]
   \<and> clean_content (clean_content [0x61, CR, CR, LF]) \<noteq> clean_content [0x61, CR, CR, LF]"
  by (simp add: byte_eval)

text \<open>
  Claim C6, as the code has it. On a content in which CR, CR, LF does not occur, rewriting
  twice gives the same bytes as rewriting once; a content in which CR+LF does not occur
  is left as it is; and on a file that can be rewritten and holds no CR, CR, LF, a second
  run of \<^verbatim>\<open>cr_cleaner\<close> returns as the first one did and leaves its result unchanged.
\<close>

theorem clean_content_idempotent:
  "(\<not> sublist [CR, CR, LF] s \<longrightarrow> clean_content (clean_content s) = clean_content s)
   \<and> (\<not> sublist CRLF s \<longrightarrow> clean_content s = s)
   \<and> (fs w file_name = Some fl \<and> readable fl \<and> writable fl \<and> \<not> damaged fl
        \<and> \<not> sublist [CR, CR, LF] (content fl) \<longrightarrow>
      cr_cleaner file_name False (snd (cr_cleaner file_name False w))
        = cr_cleaner file_name False w)"
proof -
  have a: "\<not> sublist [CR, CR, LF] t \<Longrightarrow> clean_content (clean_content t) = clean_content t" for t
    using replace_crlf_no_crlf [of t] replace_crlf_clean by (simp add: clean_content_replace)
  have b: "\<not> sublist CRLF s \<Longrightarrow> clean_content s = s"
    using replace_crlf_clean by (simp add: clean_content_replace)
  have c: "cr_cleaner file_name False (snd (cr_cleaner file_name False w))
        = cr_cleaner file_name False w"
    if h: "fs w file_name = Some fl" "readable fl" "writable fl" "\<not> damaged fl"
      "\<not> sublist [CR, CR, LF] (content fl)"
  proof -
    let ?fl = "fl\<lparr>content := clean_content (content fl)\<rparr>"
    let ?w = "w\<lparr>fs := (fs w)(file_name \<mapsto> ?fl)\<rparr>"
    have one: "cr_cleaner file_name False w = (Inr (), ?w)"
      using rewrite_file_ok [OF h(1-4)] by (simp add: cr_cleaner_def)
    have "fs ?w file_name = Some ?fl" "readable ?fl" "writable ?fl" "\<not> damaged ?fl"
      using h by simp_all
    from rewrite_file_ok [OF this]
    have "cr_cleaner file_name False ?w = (Inr (), ?w)"
      using a [OF h(5)] by (simp add: cr_cleaner_def)
    with one show ?thesis by simp
  qed
  from a b c show ?thesis by blast
qed

text \<open>C6 on the content of \<^verbatim>\<open>r/a.py\<close> and on its cleaned form.\<close>

theorem clean_content_idempotent_witness:
  "\<not> sublist [CR, CR, LF] [0x70, CR, LF, 0x71, LF]
   \<and> clean_content [0x70, CR, LF, 0x71, LF] = [0x70, LF, 0x71, LF]
   \<and> clean_content (clean_content [0x70, CR, LF, 0x71, LF]) = [0x70, LF, 0x71, LF]
   \<and> \<not> sublist CRLF [0x70, LF, 0x71, LF]
   \<and> clean_content [0x70, LF, 0x71, LF] = [0x70, LF, 0x71, LF]
   \<and> fs ex_world ''r/a.py'' = Some (plain_file [0x70, CR, LF, 0x71, LF])
   \<and> fs (snd (cr_cleaner ''r/a.py'' False (snd (cr_cleaner ''r/a.py'' False ex_world)))) ''r/a.py''
       = fs (snd (cr_cleaner ''r/a.py'' False ex_world)) ''r/a.py''"
proof -
  let ?s = "[0x70, CR, LF, 0x71, LF]"
  let ?t = "[0x70, LF, 0x71, LF]"
  have n1: "\<not> sublist [CR, CR, LF] ?s"
    by (simp add: sublist_code CR_def LF_def)
  have n2: "\<not> sublist CRLF ?t"
    by (simp add: sublist_code CRLF_def CR_def LF_def)
  have c: "clean_content ?s = ?t"
    by (simp add: byte_eval)
  have f: "fs ex_world ''r/a.py'' = Some (plain_file ?s)"
    by (simp add: ex_defs)
  have p: "readable (plain_file ?s)" "writable (plain_file ?s)" "\<not> damaged (plain_file ?s)"
    "content (plain_file ?s) = ?s"
    by (simp_all add: plain_file_def)
  note th1 = clean_content_idempotent [of ?s ex_world "''r/a.py''" "plain_file ?s"]
  note th2 = clean_content_idempotent [of ?t ex_world "''r/a.py''" "plain_file ?s"]
  from th1 n1 c have i1: "clean_content (clean_content ?s) = ?t" by simp
  from th2 n2 have i2: "clean_content ?t = ?t" by blast
  from th1 n1 f p have "cr_cleaner ''r/a.py'' False (snd (cr_cleaner ''r/a.py'' False ex_world))
        = cr_cleaner ''r/a.py'' False ex_world" by simp
  with n1 n2 c f i1 i2 show ?thesis by simp
qed

text \<open>
  Claim C9. For every file name and every state, \<^verbatim>\<open>cr_cleaner\<close> in safe mode raises
  \<^verbatim>\<open>UnboundLocalError\<close> while it formats the prompt, and the state is the one it was called
  in: nothing has been printed, no answer has been read, no file has been opened or
  changed.
\<close>

theorem safe_mode_raises_before_prompt:
  "cr_cleaner file_name True w = (Inl UnboundLocalError, w)"
  by (simp add: cr_cleaner_def confirm_def)

text \<open>
  Claim C1 asks that in safe mode the user is prompted and that the answer \<^verbatim>\<open>y\<close> leads to
  the rewrite. In the example the answer \<^verbatim>\<open>y\<close> waits on standard input and \<^verbatim>\<open>r/a.py\<close>
  has a line ending in CR+LF; the call raises, the answer is not read and the file is
  not rewritten.
\<close>

theorem safe_mode_answer_y_no_rewrite:
  "stdin ex_world = [''y'']
   \<and> fs ex_world ''r/a.py'' = Some (plain_file [0x70, CR, LF, 0x71, LF])
   \<and> cr_cleaner ''r/a.py'' True ex_world = (Inl UnboundLocalError, ex_world)"
  by (simp add: cr_cleaner_def confirm_def ex_world_def ex_fs_def)

section \<open>Inspection\<close>

lemma searching_loop_verbose:
  "searching_loop file_name True xs has_cr out n =
     (has_cr \<or> list_ex (\<lambda>il. endswith (snd il) CRLF) xs,
      out @ map (\<lambda>il. Win32Line file_name (fst il) (snd il))
                (filter (\<lambda>il. endswith (snd il) CRLF) xs),
      n + length xs)"
  by (induction xs arbitrary: has_cr out n) auto

lemma searching_loop_no_match:
  "\<not> list_ex (\<lambda>il. endswith (snd il) CRLF) xs \<Longrightarrow>
   searching_loop file_name verbose xs has_cr out n = (has_cr, out, n + length xs)"
  by (induction xs arbitrary: n) auto

lemma searching_loop_first_match:
  "\<not> list_ex (\<lambda>il. endswith (snd il) CRLF) pre \<Longrightarrow> endswith l CRLF \<Longrightarrow>
   searching_loop file_name False (pre @ (i, l) # rest) has_cr out n
     = (True, out, Suc (n + length pre))"
  by (induction pre arbitrary: n) auto

lemma enumerate_split:
  "k < length xs \<Longrightarrow>
   enumerate 0 xs = enumerate 0 (take k xs) @ (k, xs ! k) # enumerate (Suc k) (drop (Suc k) xs)"
proof -
  assume k: "k < length xs"
  have "enumerate 0 xs = enumerate 0 (take k xs @ xs ! k # drop (Suc k) xs)"
    using id_take_nth_drop [OF k] by simp
  also have "\<dots> = enumerate 0 (take k xs) @ (k, xs ! k) # enumerate (Suc k) (drop (Suc k) xs)"
    using k by (simp add: enumerate_append_eq min_def)
  finally show ?thesis .
qed

lemma list_ex_enumerate:
  "list_ex (\<lambda>il. P (snd il)) (enumerate n xs) \<longleftrightarrow> list_ex P xs"
  by (induction xs arbitrary: n) auto

lemma cr_infile_searching_ok:
  assumes "fs w file_name = Some fl" and "readable fl" and "\<not> damaged fl"
  shows "cr_infile_searching file_name verbose w =
     (case searching_loop file_name verbose (enumerate 0 (readlines (content fl))) False [] 0 of
        (has_cr, out, n) \<Rightarrow> (Some has_cr, w\<lparr>stdout := stdout w @ out\<rparr>))"
  using assms by (simp add: cr_infile_searching_def open_rb_def f_readlines_def)

lemma cr_infile_searching_prints:
  "\<exists>out. snd (cr_infile_searching file_name verbose w) = w\<lparr>stdout := stdout w @ out\<rparr>"
  by (auto simp add: cr_infile_searching_def split: sum.splits prod.splits)

lemma cr_infile_searching_failure:
  "read_failure file_name w = Some e \<Longrightarrow>
   cr_infile_searching file_name verbose w
     = (None, w\<lparr>stdout := stdout w @ [CantRead file_name e]\<rparr>)"
  by (auto simp add: read_failure_def cr_infile_searching_def split: sum.splits)

text \<open>
  Claim C3. On a file that can be opened and read, with \<open>lines\<close> its lines (all of them
  are read by \<^verbatim>\<open>readlines\<close> before the loop starts; a line is examined when the loop
  tests how it ends):
  without \<^verbatim>\<open>verbose\<close>, when line \<open>k\<close> is the first that ends with CR+LF, the function
  returns \<^verbatim>\<open>True\<close>, prints nothing, and its loop has examined \<open>k + 1\<close> lines, so none
  after line \<open>k\<close>; with \<^verbatim>\<open>verbose\<close>, when some line ends with CR+LF, it returns \<^verbatim>\<open>True\<close>,
  has examined every line, and has printed, in order, one report with the file name,
  the index counted from 0 and the raw line for each line that ends with CR+LF; when no
  line ends with CR+LF it returns \<^verbatim>\<open>False\<close> after examining every line, and prints
  nothing.
\<close>

theorem cr_infile_searching_scan:
  assumes "fs w file_name = Some fl" and "readable fl" and "\<not> damaged fl"
    and "lines = readlines (content fl)"
  shows "(\<forall>k<length lines.
            endswith (lines ! k) CRLF \<and> (\<forall>j<k. \<not> endswith (lines ! j) CRLF) \<longrightarrow>
              cr_infile_searching file_name False w = (Some True, w)
              \<and> examined file_name False lines = Suc k)
       \<and> ((\<exists>l\<in>set lines. endswith l CRLF) \<longrightarrow>
              cr_infile_searching file_name True w
                = (Some True, w\<lparr>stdout := stdout w @ reports file_name lines\<rparr>)
              \<and> examined file_name True lines = length lines)
       \<and> ((\<forall>l\<in>set lines. \<not> endswith l CRLF) \<longrightarrow>
              cr_infile_searching file_name verbose w = (Some False, w)
              \<and> examined file_name verbose lines = length lines)"
proof -
  note run = cr_infile_searching_ok [OF assms(1-3), folded assms(4)]
  have first: "cr_infile_searching file_name False w = (Some True, w)
              \<and> examined file_name False lines = Suc k"
    if k: "k < length lines" and hit: "endswith (lines ! k) CRLF"
      and before: "\<forall>j<k. \<not> endswith (lines ! j) CRLF" for k
  proof -
    have "\<not> list_ex (\<lambda>l. endswith l CRLF) (take k lines)"
      using before k by (auto simp add: list_ex_iff in_set_conv_nth)
    then have pre: "\<not> list_ex (\<lambda>il. endswith (snd il) CRLF) (enumerate 0 (take k lines))"
      using list_ex_enumerate [of "\<lambda>l. endswith l CRLF" 0 "take k lines"] by simp
    have "searching_loop file_name False (enumerate 0 lines) False [] 0 = (True, [], Suc k)"
      unfolding enumerate_split [OF k]
      using searching_loop_first_match [OF pre hit] k by (simp add: min_def)
    then show ?thesis using run [of False] by (simp add: examined_def)
  qed
  have all: "cr_infile_searching file_name True w
                = (Some True, w\<lparr>stdout := stdout w @ reports file_name lines\<rparr>)
              \<and> examined file_name True lines = length lines"
    if "\<exists>l\<in>set lines. endswith l CRLF"
  proof -
    have "list_ex (\<lambda>il. endswith (snd il) CRLF) (enumerate 0 lines)"
      using that list_ex_enumerate [of "\<lambda>l. endswith l CRLF" 0 lines]
      by (simp add: list_ex_iff)
    then show ?thesis using run [of True]
      by (simp add: searching_loop_verbose examined_def reports_def)
  qed
  have none: "cr_infile_searching file_name verbose w = (Some False, w)
              \<and> examined file_name verbose lines = length lines"
    if "\<forall>l\<in>set lines. \<not> endswith l CRLF"
  proof -
    have "\<not> list_ex (\<lambda>il. endswith (snd il) CRLF) (enumerate 0 lines)"
      using that list_ex_enumerate [of "\<lambda>l. endswith l CRLF" 0 lines]
      by (simp add: list_ex_iff)
    from searching_loop_no_match [OF this] show ?thesis using run [of verbose]
      by (simp add: examined_def)
  qed
  from first all none show ?thesis by blast
qed

text \<open>
  Claim C5. When opening a file for reading or reading its lines raises \<open>e\<close>,
  \<^verbatim>\<open>cr_infile_searching\<close> prints the file name with \<open>e\<close> and returns \<^verbatim>\<open>None\<close>, which is not
  truthy; no file has changed; and the loop of \<^verbatim>\<open>cr_finder\<close>, whatever its flags, goes on
  from the state after that print with the paths that remain: the step on this path has
  done nothing else, so \<^verbatim>\<open>cr_cleaner\<close> was not called on it and the run was not aborted.
\<close>

theorem unreadable_file_is_skipped:
  assumes "read_failure file_path w = Some e"
    and "w' = w\<lparr>stdout := stdout w @ [CantRead file_path e]\<rparr>"
  shows "cr_infile_searching file_path verbose w = (None, w')
       \<and> \<not> truthy (fst (cr_infile_searching file_path verbose w))
       \<and> fs w' = fs w
       \<and> cr_finder_loop (file_path # rest) only_inspect verbose safe_mode w
           = cr_finder_loop rest only_inspect verbose safe_mode w'"
  using cr_infile_searching_failure [OF assms(1)] assms(2) by simp

lemma cr_finder_loop_inspect:
  "\<exists>out. cr_finder_loop paths True verbose safe_mode w
            = (Inr (), w\<lparr>stdout := stdout w @ out\<rparr>)"
proof (induction paths arbitrary: w)
  case Nil
  have "w = w\<lparr>stdout := stdout w @ []\<rparr>" by simp
  then show ?case by (metis cr_finder_loop.simps(1))
next
  case (Cons p ps)
  obtain o1 where o1: "snd (cr_infile_searching p verbose w) = w\<lparr>stdout := stdout w @ o1\<rparr>"
    using cr_infile_searching_prints by blast
  obtain o2 where o2: "cr_finder_loop ps True verbose safe_mode (w\<lparr>stdout := stdout w @ o1\<rparr>)
      = (Inr (), w\<lparr>stdout := stdout w @ o1 @ o2\<rparr>)"
    using Cons [of "w\<lparr>stdout := stdout w @ o1\<rparr>"] by auto
  obtain r w1 where step: "cr_infile_searching p verbose w = (r, w1)"
    by (cases "cr_infile_searching p verbose w")
  then have "w1 = w\<lparr>stdout := stdout w @ o1\<rparr>" using o1 by simp
  then have "cr_finder_loop (p # ps) True verbose safe_mode w = (Inr (), w\<lparr>stdout := stdout w @ o1 @ o2\<rparr>)"
    using step o2 by simp
  then show ?case by blast
qed

text \<open>
  Claim C8. For every root path and every state, \<^verbatim>\<open>cr_finder\<close> with \<^verbatim>\<open>only_inspect=True\<close>
  returns normally, and the state after it is the state before it with lines added to
  standard output: the content of every file is unchanged, and no input was read.
\<close>

theorem inspect_only_changes_no_file:
  "fst (cr_finder module_file init_dir True verbose safe_mode w) = Inr ()
   \<and> fs (snd (cr_finder module_file init_dir True verbose safe_mode w)) = fs w
   \<and> stdin (snd (cr_finder module_file init_dir True verbose safe_mode w)) = stdin w
   \<and> (\<exists>out. snd (cr_finder module_file init_dir True verbose safe_mode w)
              = w\<lparr>stdout := stdout w @ out\<rparr>)"
proof -
  obtain out where "cr_finder module_file init_dir True verbose safe_mode w
      = (Inr (), w\<lparr>stdout := stdout w @ out\<rparr>)"
    unfolding cr_finder_def using cr_finder_loop_inspect by blast
  then show ?thesis by auto
qed

section \<open>The inspection on the example\<close>

lemmas loop_eval = examined_def reports_def endswith_def CRLF_def CR_def LF_def suffix_to_prefix
  enumerate_eq_zip

text \<open>
  C3 on \<^verbatim>\<open>c.py\<close>, whose second and third lines end with CR+LF: without \<^verbatim>\<open>verbose\<close> two of
  the three lines are examined; with it, all three, and two reports are printed. On
  \<^verbatim>\<open>clean.py\<close> the result is \<^verbatim>\<open>False\<close>.
\<close>

theorem cr_infile_searching_scan_witness:
  "fs ex_world ''r/src/c.py'' = Some (plain_file [0x71, LF, 0x70, CR, LF, 0x7A, CR, LF])
   \<and> readlines [0x71, LF, 0x70, CR, LF, 0x7A, CR, LF]
       = [[0x71, LF], [0x70, CR, LF], [0x7A, CR, LF]]
   \<and> cr_infile_searching ''r/src/c.py'' False ex_world = (Some True, ex_world)
   \<and> examined ''r/src/c.py'' False [[0x71, LF], [0x70, CR, LF], [0x7A, CR, LF]] = 2
   \<and> fst (cr_infile_searching ''r/src/c.py'' True ex_world) = Some True
   \<and> stdout (snd (cr_infile_searching ''r/src/c.py'' True ex_world))
       = [Win32Line ''r/src/c.py'' 1 [0x70, CR, LF], Win32Line ''r/src/c.py'' 2 [0x7A, CR, LF]]
   \<and> examined ''r/src/c.py'' True [[0x71, LF], [0x70, CR, LF], [0x7A, CR, LF]] = 3
   \<and> fs ex_world ''r/src/clean.py'' = Some (plain_file [0x71, LF])
   \<and> cr_infile_searching ''r/src/clean.py'' True ex_world = (Some False, ex_world)
   \<and> examined ''r/src/clean.py'' True [[0x71, LF]] = 1"
proof -
  let ?s = "[0x71, LF, 0x70, CR, LF, 0x7A, CR, LF]"
  let ?ls = "[[0x71, LF], [0x70, CR, LF], [0x7A, CR, LF]]"
  have f: "fs ex_world ''r/src/c.py'' = Some (plain_file ?s)"
    by (simp add: ex_defs)
  have p: "readable (plain_file x)" "\<not> damaged (plain_file x)" for x
    by (simp_all add: plain_file_def)
  have r: "?ls = readlines (content (plain_file ?s))"
    by (simp add: plain_file_def CR_def LF_def)
  note th = cr_infile_searching_scan [OF f p r, of False]
  have hit: "(1::nat) < length ?ls \<and> endswith (?ls ! 1) CRLF \<and> (\<forall>j<1. \<not> endswith (?ls ! j) CRLF)"
    by (simp add: loop_eval)
  have a: "cr_infile_searching ''r/src/c.py'' False ex_world = (Some True, ex_world)
           \<and> examined ''r/src/c.py'' False ?ls = 2"
    using th [THEN conjunct1, rule_format, of 1] hit by simp
  have some: "\<exists>l\<in>set ?ls. endswith l CRLF"
    by (simp add: loop_eval)
  have b: "cr_infile_searching ''r/src/c.py'' True ex_world
             = (Some True, ex_world\<lparr>stdout := stdout ex_world @ reports ''r/src/c.py'' ?ls\<rparr>)
           \<and> examined ''r/src/c.py'' True ?ls = length ?ls"
    using th [THEN conjunct2, THEN conjunct1] some by blast
  have rep: "reports ''r/src/c.py'' ?ls
      = [Win32Line ''r/src/c.py'' 1 [0x70, CR, LF], Win32Line ''r/src/c.py'' 2 [0x7A, CR, LF]]"
    by (simp add: loop_eval upt_rec)
  have b1: "fst (cr_infile_searching ''r/src/c.py'' True ex_world) = Some True"
    using b by simp
  have b2: "stdout (snd (cr_infile_searching ''r/src/c.py'' True ex_world))
       = [Win32Line ''r/src/c.py'' 1 [0x70, CR, LF], Win32Line ''r/src/c.py'' 2 [0x7A, CR, LF]]"
    using b rep by (simp add: ex_world_def)
  have b3: "examined ''r/src/c.py'' True ?ls = 3"
    using b by simp
  have f2: "fs ex_world ''r/src/clean.py'' = Some (plain_file [0x71, LF])"
    by (simp add: ex_defs)
  have r2: "[[0x71, LF]] = readlines (content (plain_file [0x71, LF]))"
    by (simp add: plain_file_def CR_def LF_def)
  have none: "\<forall>l\<in>set [[0x71, LF]]. \<not> endswith l CRLF"
    by (simp add: loop_eval)
  have c: "cr_infile_searching ''r/src/clean.py'' True ex_world = (Some False, ex_world)
           \<and> examined ''r/src/clean.py'' True [[0x71, LF]] = length [[0x71::byte, LF]]"
    using cr_infile_searching_scan [OF f2 p r2, of True, THEN conjunct2, THEN conjunct2] none
    by blast
  have rl: "readlines ?s = ?ls"
    by (simp add: CR_def LF_def)
  from f rl a b1 b2 b3 f2 c show ?thesis by simp
qed

text \<open>
  C5 on \<^verbatim>\<open>locked.py\<close>, followed by \<^verbatim>\<open>a.py\<close>, in cleaning mode: the first is reported and
  left alone, the second is rewritten.
\<close>

theorem unreadable_file_is_skipped_witness:
  "read_failure ''r/src/locked.py'' ex_world = Some PermissionError
   \<and> cr_infile_searching ''r/src/locked.py'' False ex_world
       = (None, ex_world\<lparr>stdout := [CantRead ''r/src/locked.py'' PermissionError]\<rparr>)
   \<and> cr_finder_loop [''r/src/locked.py'', ''r/a.py''] False False False ex_world
       = cr_finder_loop [''r/a.py''] False False False
           (ex_world\<lparr>stdout := [CantRead ''r/src/locked.py'' PermissionError]\<rparr>)
   \<and> fst (cr_finder_loop [''r/src/locked.py'', ''r/a.py''] False False False ex_world) = Inr ()
   \<and> fs (snd (cr_finder_loop [''r/src/locked.py'', ''r/a.py''] False False False ex_world))
        ''r/src/locked.py'' = Some (locked_file [0x78, CR, LF])
   \<and> fs (snd (cr_finder_loop [''r/src/locked.py'', ''r/a.py''] False False False ex_world))
        ''r/a.py'' = Some (plain_file [0x70, LF, 0x71, LF])"
proof -
  have rf: "read_failure ''r/src/locked.py'' ex_world = Some PermissionError"
    by (simp add: read_failure_def open_rb_def ex_defs)
  have so: "ex_world\<lparr>stdout := stdout ex_world @ [CantRead ''r/src/locked.py'' PermissionError]\<rparr>
      = ex_world\<lparr>stdout := [CantRead ''r/src/locked.py'' PermissionError]\<rparr>"
    by (simp add: ex_world_def)
  note th = unreadable_file_is_skipped [OF rf refl, of False "[''r/a.py'']" False False,
      unfolded so]
  have nxt: "cr_finder_loop [''r/a.py''] False False False
           (ex_world\<lparr>stdout := [CantRead ''r/src/locked.py'' PermissionError]\<rparr>)
      = (Inr (), ex_world\<lparr>stdout := [CantRead ''r/src/locked.py'' PermissionError],
            fs := ex_fs(''r/a.py'' \<mapsto> plain_file [0x70, LF, 0x71, LF])\<rparr>)"
    by (simp add: ex_defs cr_infile_searching_def open_rb_def f_readlines_def
        cr_cleaner_def rewrite_file_def open_rpb_def f_seek_def
        f_write_def f_truncate_def f_close_def byte_eval enumerate_eq_zip)
  have e1: "fs (snd (cr_finder_loop [''r/src/locked.py'', ''r/a.py''] False False False ex_world))
        ''r/src/locked.py'' = Some (locked_file [0x78, CR, LF])"
    using th nxt by (simp add: ex_fs_def)
  have e2: "fs (snd (cr_finder_loop [''r/src/locked.py'', ''r/a.py''] False False False ex_world))
        ''r/a.py'' = Some (plain_file [0x70, LF, 0x71, LF])"
    using th nxt by simp
  have e3: "fst (cr_finder_loop [''r/src/locked.py'', ''r/a.py''] False False False ex_world) = Inr ()"
    using th nxt by simp
  from rf th e1 e2 e3 show ?thesis by simp
qed

text \<open>C8 on the example tree, with the paths the walker yields there.\<close>

theorem inspect_only_changes_no_file_witness:
  "fst (cr_finder ex_module_file ''r'' True True False ex_world) = Inr ()
   \<and> fs (snd (cr_finder ex_module_file ''r'' True True False ex_world)) = fs ex_world
   \<and> walker ex_module_file ''r'' ex_world
       = [''r/a.py'', ''r/src/b.py'', ''r/src/locked.py'', ''r/src/c.py'', ''r/src/clean.py'']"
proof -
  have "walker ex_module_file ''r'' ex_world
       = [''r/a.py'', ''r/src/b.py'', ''r/src/locked.py'', ''r/src/c.py'', ''r/src/clean.py'']"
    by code_simp
  then show ?thesis
    using inspect_only_changes_no_file [of ex_module_file "''r''" True False ex_world] by simp
qed

section \<open>The walker\<close>

lemma is_valid_path_loop_iff:
  "is_valid_path_loop igs filepath \<longleftrightarrow> \<not> list_ex (\<lambda>ign_dir. sublist ign_dir filepath) igs"
  by (induction igs) auto

lemma sublist_os_path_join:
  assumes "entry_name n" and "sublist x a"
  shows "sublist x (os_path_join a n)"
proof -
  have "os_path_join a n = a @ n \<or> os_path_join a n = a @ ''/'' @ n"
    using assms(1) by (cases n) (auto simp add: os_path_join_def entry_name_def)
  moreover have "sublist x (a @ ys)" for ys
    using assms(2) by (auto simp add: sublist_append)
  ultimately show ?thesis by metis
qed

lemma invalid_path_join:
  "entry_name n \<Longrightarrow> \<not> is_valid_path a \<Longrightarrow> \<not> is_valid_path (os_path_join a n)"
  by (auto simp add: is_valid_path_def is_valid_path_loop_iff list_ex_iff
      intro: sublist_os_path_join)

lemma os_walk_invalid:
  "wf_tree t \<Longrightarrow> \<not> is_valid_path top_dir \<Longrightarrow> e \<in> set (os_walk top_dir t) \<Longrightarrow>
   \<not> is_valid_path (fst e)"
proof (induction top_dir t arbitrary: e rule: os_walk.induct)
  case (1 top_dir)
  then show ?case by simp
next
  case (2 top_dir subs files)
  show ?case
  proof (cases "e = (top_dir, map fst subs, files)")
    case True
    then show ?thesis using 2(3) by simp
  next
    case False
    then obtain nt where nt: "nt \<in> set subs"
      and e: "e \<in> set (os_walk (os_path_join top_dir (fst nt)) (snd nt))"
      using 2(4) by auto
    have "entry_name (fst nt)" "wf_tree (snd nt)"
      using 2(2) nt by (auto simp add: list_all_iff)
    then show ?thesis using 2(1) [OF nt _ _ e] invalid_path_join [OF _ 2(3)] by blast
  qed
qed

lemma walker_loop_invalid:
  "\<forall>e\<in>set es. \<not> is_valid_path (fst e) \<Longrightarrow> walker_loop module_file es = []"
  by (induction module_file es rule: walker_loop.induct) auto

lemma walker_loop_append:
  "walker_loop module_file (xs @ ys) = walker_loop module_file xs @ walker_loop module_file ys"
  by (induction module_file xs rule: walker_loop.induct) auto

lemma path_at_Cons: "path_at init_path (n # ns) = path_at (os_path_join init_path n) ns"
  by (simp add: path_at_def)

lemma os_walk_subtree:
  "subtree_at t ns = Some d \<Longrightarrow>
   \<exists>pre post. os_walk top_dir t = pre @ os_walk (path_at top_dir ns) d @ post"
proof (induction ns arbitrary: t top_dir)
  case Nil
  have "os_walk top_dir t = [] @ os_walk (path_at top_dir []) d @ []"
    using Nil by (simp add: path_at_def)
  then show ?case by blast
next
  case (Cons n ns)
  show ?case
  proof (cases t)
    case NoDir
    then show ?thesis using Cons.prems by simp
  next
    case (Dir subs files)
    then obtain t' where t': "map_of subs n = Some t'" and sub: "subtree_at t' ns = Some d"
      using Cons.prems by (auto split: option.splits)
    from map_of_SomeD [OF t'] obtain s1 s2 where subs: "subs = s1 @ (n, t') # s2"
      by (auto simp add: in_set_conv_decomp)
    obtain pre post where
      "os_walk (os_path_join top_dir n) t' = pre @ os_walk (path_at (os_path_join top_dir n) ns) d @ post"
      using Cons.IH [OF sub] by blast
    then have "os_walk top_dir t =
        ((top_dir, map fst subs, files)
          # concat (map (\<lambda>nt. os_walk (os_path_join top_dir (fst nt)) (snd nt)) s1) @ pre)
        @ os_walk (path_at top_dir (n # ns)) d
        @ (post @ concat (map (\<lambda>nt. os_walk (os_path_join top_dir (fst nt)) (snd nt)) s2))"
      using Dir subs by (simp add: path_at_Cons)
    then show ?thesis by blast
  qed
qed

lemma wf_subtree:
  "wf_tree t \<Longrightarrow> subtree_at t ns = Some d \<Longrightarrow> wf_tree d"
proof (induction ns arbitrary: t)
  case Nil
  then show ?case by simp
next
  case (Cons n ns)
  show ?case
  proof (cases t)
    case NoDir
    then show ?thesis using Cons.prems by simp
  next
    case (Dir subs files)
    then obtain t' where t': "map_of subs n = Some t'" and sub: "subtree_at t' ns = Some d"
      using Cons.prems by (auto split: option.splits)
    have "wf_tree t'"
      using map_of_SomeD [OF t'] Cons.prems(1) Dir by (auto simp add: list_all_iff)
    then show ?thesis using Cons.IH sub by blast
  qed
qed

lemma os_walk_visits_subdirs:
  assumes "nt \<in> set subs" and "snd nt \<noteq> NoDir"
  shows "os_path_join D (fst nt) \<in> fst ` set (os_walk D (Dir subs files))"
proof -
  obtain ss fs' where "snd nt = Dir ss fs'" using assms(2) by (cases "snd nt") auto
  then have "(os_path_join D (fst nt), map fst ss, fs')
      \<in> set (os_walk (os_path_join D (fst nt)) (snd nt))" by simp
  then have "(os_path_join D (fst nt), map fst ss, fs') \<in> set (os_walk D (Dir subs files))"
    using assms(1) by auto
  then show ?thesis by force
qed

text \<open>
  Claim C4, as the code has it. Let \<open>D\<close> be the path of a directory of a well-formed tree
  under \<open>init_path\<close>, reached through the sub-directories \<open>ns\<close>, and let \<^verbatim>\<open>is_valid_path\<close>
  reject \<open>D\<close>. The triples \<^verbatim>\<open>os.walk\<close> produces for \<open>D\<close> and everything beneath it are one
  segment of the traversal, and the walker yields exactly what it yields for the triples
  before and after that segment: no file of \<open>D\<close> or beneath it is yielded. Every
  directory of the segment is rejected in its turn, since its path contains the path of
  \<open>D\<close>. The segment is not cut short, though: every sub-directory of \<open>D\<close> that can be listed
  is visited by the traversal.
\<close>

theorem rejected_directory_yields_nothing:
  assumes "wf_tree (dirs w init_path)"
    and "subtree_at (dirs w init_path) ns = Some (Dir subs files)"
    and "D = path_at init_path ns"
    and "\<not> is_valid_path D"
  shows "(\<exists>pre post.
            os_walk init_path (dirs w init_path) = pre @ os_walk D (Dir subs files) @ post
            \<and> walker module_file init_path w
                = walker_loop module_file pre @ walker_loop module_file post)
       \<and> walker_loop module_file (os_walk D (Dir subs files)) = []
       \<and> (\<forall>e\<in>set (os_walk D (Dir subs files)). \<not> is_valid_path (fst e))
       \<and> (\<forall>nt\<in>set subs. snd nt \<noteq> NoDir \<longrightarrow>
             os_path_join D (fst nt) \<in> fst ` set (os_walk D (Dir subs files)))"
proof -
  have wf: "wf_tree (Dir subs files)" using wf_subtree [OF assms(1,2)] .
  have inv: "\<forall>e\<in>set (os_walk D (Dir subs files)). \<not> is_valid_path (fst e)"
    using os_walk_invalid [OF wf assms(4)] by blast
  have none: "walker_loop module_file (os_walk D (Dir subs files)) = []"
    using walker_loop_invalid [OF inv] .
  obtain pre post where
    seg: "os_walk init_path (dirs w init_path) = pre @ os_walk D (Dir subs files) @ post"
    using os_walk_subtree [OF assms(2)] assms(3) by blast
  have "walker module_file init_path w = walker_loop module_file pre @ walker_loop module_file post"
    unfolding walker_def seg walker_loop_append none by simp
  with seg inv none os_walk_visits_subdirs show ?thesis by blast
qed

text \<open>
  C4 as stated fails on the example: \<^verbatim>\<open>r/.git\<close> is rejected, and the traversal still
  descends into its sub-directory \<^verbatim>\<open>r/.git/hooks\<close>, for which the loop body of the walker
  runs as for any other directory.
\<close>

theorem rejected_directory_is_descended:
  "os_walk ''r'' (dirs ex_world ''r'')
     = [(''r'', [''.git'', ''src''], [''a.py'']),
        (''r/.git'', [''hooks''], [''x.py'']),
        (''r/.git/hooks'', [], [''pre.py'']),
        (''r/src'', [], [''b.py'', ''notes.txt'', ''locked.py'', ''c.py'', ''clean.py''])]
   \<and> \<not> is_valid_path ''r/.git''
   \<and> (''r/.git/hooks'', [], [''pre.py'']) \<in> set (os_walk ''r'' (dirs ex_world ''r''))"
  by (simp add: ex_defs os_path_join_def is_valid_path_def IGNORE_FOLDERS_def sublist_code)

text \<open>C4 on \<^verbatim>\<open>r/.git\<close> in the example.\<close>

theorem rejected_directory_yields_nothing_witness:
  "wf_tree (dirs ex_world ''r'')
   \<and> subtree_at (dirs ex_world ''r'') [''.git''] = Some (Dir [(''hooks'', Dir [] [''pre.py''])] [''x.py''])
   \<and> path_at ''r'' [''.git''] = ''r/.git''
   \<and> \<not> is_valid_path ''r/.git''
   \<and> walker_loop ex_module_file (os_walk ''r/.git'' (Dir [(''hooks'', Dir [] [''pre.py''])] [''x.py''])) = []
   \<and> os_walk ''r/.git'' (Dir [(''hooks'', Dir [] [''pre.py''])] [''x.py''])
       = [(''r/.git'', [''hooks''], [''x.py'']), (''r/.git/hooks'', [], [''pre.py''])]
   \<and> \<not> is_valid_path ''r/.git/hooks''
   \<and> ''r/.git/hooks'' \<in> fst ` set (os_walk ''r/.git'' (Dir [(''hooks'', Dir [] [''pre.py''])] [''x.py'']))"
proof -
  let ?d = "Dir [(''hooks'', Dir [] [''pre.py''])] [''x.py'']"
  have wf: "wf_tree (dirs ex_world ''r'')"
    by (simp add: ex_defs entry_name_def)
  have sub: "subtree_at (dirs ex_world ''r'') [''.git''] = Some ?d"
    by (simp add: ex_defs)
  have pa: "''r/.git'' = path_at ''r'' [''.git'']"
    by (simp add: path_at_def os_path_join_def)
  have inv: "\<not> is_valid_path ''r/.git''"
    by (simp add: is_valid_path_def IGNORE_FOLDERS_def sublist_code)
  note th = rejected_directory_yields_nothing [OF wf sub pa inv, of ex_module_file]
  have ow: "os_walk ''r/.git'' ?d
       = [(''r/.git'', [''hooks''], [''x.py'']), (''r/.git/hooks'', [], [''pre.py''])]"
    by code_simp
  have a: "walker_loop ex_module_file (os_walk ''r/.git'' ?d) = []"
    using th by blast
  have "(''r/.git/hooks'', [], [''pre.py'']) \<in> set (os_walk ''r/.git'' ?d)"
    unfolding ow by simp
  then have b: "\<not> is_valid_path ''r/.git/hooks''"
    using th by fastforce
  have j: "os_path_join ''r/.git'' ''hooks'' = ''r/.git/hooks''"
    by code_simp
  have "os_path_join ''r/.git'' ''hooks'' \<in> fst ` set (os_walk ''r/.git'' ?d)"
    using th by fastforce
  then have c: "''r/.git/hooks'' \<in> fst ` set (os_walk ''r/.git'' ?d)"
    unfolding j .
  from wf sub pa inv a ow b c show ?thesis by simp
qed

section \<open>The file filter\<close>

text \<open>
  What \<^verbatim>\<open>is_valid\<close> returns: \<^verbatim>\<open>False\<close> for the module's own file name, \<^verbatim>\<open>True\<close> for another
  name with a listed extension. As a condition of an \<^verbatim>\<open>if\<close>, its result holds exactly
  for the second kind of name.
\<close>

lemma is_valid_truthy:
  "truthy (is_valid module_file filename) \<longleftrightarrow>
     filename \<noteq> snd (os_path_split module_file)
     \<and> snd (os_path_splitext filename) = ''.py''"
  by (simp add: is_valid_def TARGET_FILES_def Let_def)

lemma is_valid_self:
  "is_valid module_file (snd (os_path_split module_file)) = Some False"
  by (simp add: is_valid_def)

lemma is_valid_listed:
  "filename \<noteq> snd (os_path_split module_file) \<Longrightarrow>
   snd (os_path_splitext filename) \<in> set TARGET_FILES \<Longrightarrow>
   is_valid module_file filename = Some True"
  by (simp add: is_valid_def Let_def)

text \<open>
  Claim C7 asks for \<^verbatim>\<open>False\<close> when the extension is not listed, as the docstring and the
  annotation of \<^verbatim>\<open>is_valid\<close> do. For \<^verbatim>\<open>notes.txt\<close>, and for \<^verbatim>\<open>a.PY\<close>, the function returns
  \<^verbatim>\<open>None\<close>; the other two cases of the claim hold on \<^verbatim>\<open>a.py\<close> and on the module's own name.
\<close>

theorem is_valid_returns_none:
  "snd (os_path_split ex_module_file) = ''cr_cleaner.py''
   \<and> snd (os_path_splitext ''notes.txt'') = ''.txt''
   \<and> is_valid ex_module_file ''notes.txt'' = None
   \<and> is_valid ex_module_file ''a.PY'' = None
   \<and> is_valid ex_module_file ''a.py'' = Some True
   \<and> is_valid ex_module_file ''cr_cleaner.py'' = Some False"
  by code_simp

end
